theory Spec2Isabelle
  imports Main "HOL-Library.Word" "HOL-Library.Char_ord" "HOL-Library.List_Lexorder"
    "HOL-Library.Sublist" "HOL-Library.AList"
begin

section \<open>The concatenation script concat.py\<close>

text \<open>
  The script is eleven lines of Python:
  \<^verbatim>\<open>
  output_file = Path("allCrudManagers.txt")
  separator = "-" * 100 + "\n"

  with output_file.open("w", encoding="utf-8") as out:
      for file in sorted(Path(".").glob("*CrudManager.java"), key=lambda p: p.name.lower()):
          with file.open("r", encoding="utf-8", errors="ignore") as f:
              out.write(f.read())
          out.write("\n" + separator)
  \<close>
  Its behaviour is that of the library calls it makes, so the embedding gives each call
  a definition of its own: the directory listing, the pattern match of \<open>glob\<close>, the key
  \<open>p.name.lower()\<close>, the stable \<open>sorted\<close>, the text-mode \<open>read\<close> (UTF-8 with
  \<open>errors="ignore"\<close> and universal newlines) and the text-mode \<open>write\<close> (UTF-8, strict).
  The platform is POSIX, as the script's first line \<open>#!/usr/bin/env python3\<close> suggests:
  names are matched case-sensitively and \<open>"\n"\<close> is written as the single byte 10.
  The final \<open>print\<close> touches standard output only and is left out.
\<close>

subsection \<open>Data\<close>

type_synonym byte = "8 word"

text \<open>A Python \<open>str\<close> read from or written to a file: a list of code points.\<close>

type_synonym str = "nat list"

text \<open>
  A directory entry is a regular file with its bytes, or a subdirectory. The working
  directory is the list of its entries in the order the operating system enumerates them;
  a file that is created is enumerated last. Names are Python strings; the model has one
  \<open>char\<close> for each code point below 256.
\<close>

datatype node = File "byte list" | Dir

type_synonym dir = "(string \<times> node) list"

datatype error =
    IsADirectoryError
  | FileNotFoundError
  | UnicodeDecodeError
  | UnicodeEncodeError

text \<open>The value of the \<open>errors\<close> argument of \<open>open\<close>; its default is strict.\<close>

datatype errors_mode = Strict | Ignore

definition output_file :: string where
  "output_file = ''allCrudManagers.txt''"

definition separator :: str where
  "separator = replicate 100 45 @ [10]"

definition pattern :: string where
  "pattern = ''*CrudManager.java''"

subsection \<open>Enumerating and ordering the inputs\<close>

text \<open>
  \<open>glob\<close> matches each entry name against the pattern as \<open>fnmatch\<close> does: \<open>*\<close> stands
  for any run of characters, also the empty one and also a leading dot, \<open>?\<close> for one
  character, and every other character of the script's pattern for itself.
\<close>

fun fnmatch :: "string \<Rightarrow> string \<Rightarrow> bool" where
  "fnmatch [] [] = True"
| "fnmatch [] (c # cs) = False"
| "fnmatch (p # ps) [] = (p = CHR ''*'' \<and> fnmatch ps [])"
| "fnmatch (p # ps) (c # cs) =
     (if p = CHR ''*'' then fnmatch ps (c # cs) \<or> fnmatch (p # ps) cs
      else if p = CHR ''?'' then fnmatch ps cs
      else p = c \<and> fnmatch ps cs)"

definition glob :: "string \<Rightarrow> dir \<Rightarrow> dir" where
  "glob pat d = filter (\<lambda>e. fnmatch pat (fst e)) d"

text \<open>
  \<open>str.lower\<close> on the code points below 256: the letters A to Z and the capital letters
  of Latin-1 (192 to 222, the multiplication sign 215 apart) move up by 32.
\<close>

definition lower_char :: "char \<Rightarrow> char" where
  "lower_char c =
     (let n = (of_char c :: nat)
      in if (65 \<le> n \<and> n \<le> 90) \<or> (192 \<le> n \<and> n \<le> 222 \<and> n \<noteq> 215)
         then char_of (n + 32) else c)"

definition lower :: "string \<Rightarrow> string" where
  "lower s = map lower_char s"

text \<open>
  \<open>sorted(..., key=lambda p: p.name.lower())\<close>: a stable sort on the keys, which Python
  compares as strings, code point by code point.
\<close>

definition sort_key_name :: "string \<times> node \<Rightarrow> string" where
  "sort_key_name e = lower (fst e)"

definition sorted_inputs :: "dir \<Rightarrow> dir" where
  "sorted_inputs d = sort_key sort_key_name (glob pattern d)"

subsection \<open>Reading: the UTF-8 decoder\<close>

text \<open>
  \<open>f.read()\<close> decodes the whole file. The decoder is CPython's: at each position it
  either decodes one code point from one to four bytes, or reports an invalid range of
  one to three bytes (an invalid start byte, an invalid continuation byte after a valid
  beginning, or a sequence cut short by the end of the data). Overlong forms, surrogates
  and code points above 10FFFF are rejected at the second byte.
\<close>

definition is_continuation_byte :: "byte \<Rightarrow> bool" where
  "is_continuation_byte ch \<longleftrightarrow> 0x80 \<le> ch \<and> ch < 0xC0"

datatype step = Decoded nat nat | Invalid nat

definition utf8_step :: "byte \<Rightarrow> byte list \<Rightarrow> step" where
  "utf8_step ch rest =
     (if ch < 0x80 then Decoded (unat ch) 1
      else if ch < 0xE0 then
        (if ch < 0xC2 then Invalid 1
         else case rest of
           [] \<Rightarrow> Invalid 1
         | ch2 # _ \<Rightarrow>
             if \<not> is_continuation_byte ch2 then Invalid 1
             else Decoded (unat ch * 64 + unat ch2 - (0xC0 * 64 + 0x80)) 2)
      else if ch < 0xF0 then
        (case rest of
           [] \<Rightarrow> Invalid 1
         | ch2 # rest2 \<Rightarrow>
             if \<not> is_continuation_byte ch2
                \<or> (if ch2 < 0xA0 then ch = 0xE0 else ch = 0xED) then Invalid 1
             else case rest2 of
               [] \<Rightarrow> Invalid 2
             | ch3 # _ \<Rightarrow>
                 if \<not> is_continuation_byte ch3 then Invalid 2
                 else Decoded (unat ch * 4096 + unat ch2 * 64 + unat ch3
                               - (0xE0 * 4096 + 0x80 * 64 + 0x80)) 3)
      else if ch < 0xF5 then
        (case rest of
           [] \<Rightarrow> Invalid 1
         | ch2 # rest2 \<Rightarrow>
             if \<not> is_continuation_byte ch2
                \<or> (if ch2 < 0x90 then ch = 0xF0 else ch = 0xF4) then Invalid 1
             else case rest2 of
               [] \<Rightarrow> Invalid 2
             | ch3 # rest3 \<Rightarrow>
                 if \<not> is_continuation_byte ch3 then Invalid 2
                 else case rest3 of
                   [] \<Rightarrow> Invalid 3
                 | ch4 # _ \<Rightarrow>
                     if \<not> is_continuation_byte ch4 then Invalid 3
                     else Decoded (unat ch * 262144 + unat ch2 * 4096 + unat ch3 * 64 + unat ch4
                                   - (0xF0 * 262144 + 0x80 * 4096 + 0x80 * 64 + 0x80)) 4)
      else Invalid 1)"

text \<open>
  The error handler decides what an invalid range does: \<open>strict\<close> raises,
  \<open>ignore\<close> skips the range and goes on behind it.
\<close>

fun utf8_decode :: "errors_mode \<Rightarrow> byte list \<Rightarrow> error + str" where
  "utf8_decode m [] = Inr []"
| "utf8_decode m (ch # rest) =
     (case utf8_step ch rest of
        Decoded c k \<Rightarrow>
          (case utf8_decode m (drop (k - 1) rest) of
             Inl e \<Rightarrow> Inl e
           | Inr s \<Rightarrow> Inr (c # s))
      | Invalid k \<Rightarrow>
          (case m of
             Strict \<Rightarrow> Inl UnicodeDecodeError
           | Ignore \<Rightarrow> utf8_decode m (drop (k - 1) rest)))"

text \<open>
  Text mode with the default \<open>newline=None\<close> reads with universal newlines: a carriage
  return, with the line feed that follows it if there is one, is read as one line feed.
\<close>

fun universal_newlines :: "str \<Rightarrow> str" where
  "universal_newlines [] = []"
| "universal_newlines [c] = [if c = 13 then 10 else c]"
| "universal_newlines (c # c' # s) =
     (if c = 13 then
        (if c' = 10 then 10 # universal_newlines s else 10 # universal_newlines (c' # s))
      else c # universal_newlines (c' # s))"

definition read_text :: "errors_mode \<Rightarrow> byte list \<Rightarrow> error + str" where
  "read_text m bs =
     (case utf8_decode m bs of Inl e \<Rightarrow> Inl e | Inr s \<Rightarrow> Inr (universal_newlines s))"

subsection \<open>Writing: the UTF-8 encoder\<close>

definition is_surrogate :: "nat \<Rightarrow> bool" where
  "is_surrogate c \<longleftrightarrow> 0xD800 \<le> c \<and> c \<le> 0xDFFF"

definition encode_code_point :: "nat \<Rightarrow> byte list" where
  "encode_code_point c =
     (if c < 0x80 then [of_nat c]
      else if c < 0x800 then [of_nat (0xC0 + c div 64), of_nat (0x80 + c mod 64)]
      else if c < 0x10000 then
        [of_nat (0xE0 + c div 4096), of_nat (0x80 + c div 64 mod 64), of_nat (0x80 + c mod 64)]
      else
        [of_nat (0xF0 + c div 262144), of_nat (0x80 + c div 4096 mod 64),
         of_nat (0x80 + c div 64 mod 64), of_nat (0x80 + c mod 64)])"

definition encode_str :: "str \<Rightarrow> byte list" where
  "encode_str s = concat (map encode_code_point s)"

text \<open>The output is opened with the default strict handler: a surrogate raises.\<close>

definition utf8_encode :: "str \<Rightarrow> error + byte list" where
  "utf8_encode s = (if list_ex is_surrogate s then Inl UnicodeEncodeError else Inr (encode_str s))"

subsection \<open>The files and the run\<close>

definition file_bytes :: "dir \<Rightarrow> string \<Rightarrow> byte list" where
  "file_bytes d name = (case map_of d name of Some (File bs) \<Rightarrow> bs | _ \<Rightarrow> [])"

text \<open>\<open>open("w")\<close> creates the file or empties it; a directory of that name is an error.\<close>

definition open_write :: "string \<Rightarrow> dir \<Rightarrow> error + dir" where
  "open_write name d =
     (case map_of d name of
        Some Dir \<Rightarrow> Inl IsADirectoryError
      | _ \<Rightarrow> Inr (AList.update name (File []) d))"

text \<open>\<open>file.open("r", errors=m)\<close> followed by \<open>f.read()\<close>.\<close>

definition read_file :: "errors_mode \<Rightarrow> string \<Rightarrow> dir \<Rightarrow> error + str" where
  "read_file m name d =
     (case map_of d name of
        None \<Rightarrow> Inl FileNotFoundError
      | Some Dir \<Rightarrow> Inl IsADirectoryError
      | Some (File bs) \<Rightarrow> read_text m bs)"

text \<open>
  \<open>out.write(s)\<close>: the encoded text goes behind what the output file holds. The handle
  \<open>out\<close> stays open through the loop and names the entry that \<open>open_write\<close> made.
  Python buffers what is written until the file is closed; the model writes at once,
  which no read of the run can tell apart, since the output file is never read.
\<close>

definition write_text :: "str \<Rightarrow> dir \<Rightarrow> error + dir" where
  "write_text s d =
     (case utf8_encode s of
        Inl e \<Rightarrow> Inl e
      | Inr bs \<Rightarrow> Inr (AList.update output_file (File (file_bytes d output_file @ bs)) d))"

text \<open>The body of the \<open>for\<close> loop, over the sorted paths.\<close>

fun concat_loop :: "string list \<Rightarrow> dir \<Rightarrow> error + dir" where
  "concat_loop [] d = Inr d"
| "concat_loop (file # files) d =
     (case read_file Ignore file d of
        Inl e \<Rightarrow> Inl e
      | Inr s \<Rightarrow>
          (case write_text s d of
             Inl e \<Rightarrow> Inl e
           | Inr d1 \<Rightarrow>
               (case write_text (10 # separator) d1 of
                  Inl e \<Rightarrow> Inl e
                | Inr d2 \<Rightarrow> concat_loop files d2)))"

text \<open>
  The whole script: the output file is opened first, the directory is listed and sorted
  next, then the loop runs. A run that fails returns the error alone; what it had
  written by then is not kept.
\<close>

definition run :: "dir \<Rightarrow> error + dir" where
  "run d =
     (case open_write output_file d of
        Inl e \<Rightarrow> Inl e
      | Inr d0 \<Rightarrow> concat_loop (map fst (sorted_inputs d0)) d0)"

subsection \<open>Directories without failing calls, and the expected output\<close>

text \<open>
  The directory states on which no system call of the run fails: entry names are unique,
  the output name is not taken by a directory, and every entry that the pattern matches
  is a regular file.
\<close>

definition dir_ok :: "dir \<Rightarrow> bool" where
  "dir_ok d \<longleftrightarrow>
     distinct (map fst d) \<and> map_of d output_file \<noteq> Some Dir
     \<and> list_all (\<lambda>e. snd e \<noteq> Dir) (glob pattern d)"

text \<open>The text that \<open>f.read()\<close> returns for a file with the bytes \<open>bs\<close>.\<close>

definition decoded_content :: "byte list \<Rightarrow> str" where
  "decoded_content bs = (case read_text Ignore bs of Inl e \<Rightarrow> [] | Inr s \<Rightarrow> s)"

definition entry_content :: "string \<times> node \<Rightarrow> str" where
  "entry_content e = (case snd e of File bs \<Rightarrow> decoded_content bs | Dir \<Rightarrow> [])"

text \<open>One input's share of the output: its text, a line feed, 100 dashes, a line feed.\<close>

definition block :: "string \<times> node \<Rightarrow> byte list" where
  "block e = encode_str (entry_content e) @ [0x0A] @ replicate 100 0x2D @ [0x0A]"

definition blocks :: "dir \<Rightarrow> byte list" where
  "blocks es = concat (map block es)"

text \<open>
  The bytes of a file that the decoder does not skip under \<open>errors="ignore"\<close>: the
  byte sequences of the code points it decodes, in their order.
\<close>

fun valid_bytes :: "byte list \<Rightarrow> byte list" where
  "valid_bytes [] = []"
| "valid_bytes (ch # rest) =
     (case utf8_step ch rest of
        Decoded c k \<Rightarrow> ch # take (k - 1) rest @ valid_bytes (drop (k - 1) rest)
      | Invalid k \<Rightarrow> valid_bytes (drop (k - 1) rest))"

subsection \<open>Example directories\<close>

text \<open>
  Two inputs that the enumeration lists in the wrong order, one of them with an invalid
  byte and a carriage return, beside a file that does not match and an output file left
  by an earlier run.
\<close>

definition example_dir :: dir where
  "example_dir =
     [(''c.txt'', File [0x43]),
      (''BCrudManager.java'', File [0x42, 0xFF, 0xC3, 0xA9, 0x0D, 0x0A]),
      (output_file, File [0x6F, 0x6C, 0x64]),
      (''aCrudManager.java'', File [0x61])]"

text \<open>A directory without any input.\<close>

definition empty_dir :: dir where
  "empty_dir = [(''c.txt'', File [0x43]), (''notes.java'', Dir)]"

text \<open>The same two inputs in a directory that has no output file yet.\<close>

definition fresh_dir :: dir where
  "fresh_dir =
     [(''BCrudManager.java'', File [0x42, 0xFF, 0xC3, 0xA9, 0x0D, 0x0A]),
      (''aCrudManager.java'', File [0x61]),
      (''readme.md'', File [])]"

text \<open>The three names of the specification's example, as it writes them.\<close>

definition spec_example_dir :: dir where
  "spec_example_dir =
     [(''a.CrudManager'', File [0x41]), (''B.CrudManager'', File [0x42]),
      (''c.txt'', File [0x43])]"

text \<open>The same example with names that end as the pattern asks, enumerated out of order.\<close>

definition java_example_dir :: dir where
  "java_example_dir =
     [(''B.CrudManager.java'', File [0x42]), (''c.txt'', File [0x43]),
      (''a.CrudManager.java'', File [0x41])]"

text \<open>One input with a carriage return and a line feed between two letters.\<close>

definition crlf_dir :: dir where
  "crlf_dir = [(''xCrudManager.java'', File [0x61, 0x0D, 0x0A, 0x62])]"

section \<open>Properties\<close>

subsection \<open>The pattern\<close>

lemma fnmatch_literal:
  "CHR ''*'' \<notin> set ps \<Longrightarrow> CHR ''?'' \<notin> set ps \<Longrightarrow> fnmatch ps cs \<longleftrightarrow> cs = ps"
  by (induction ps cs rule: fnmatch.induct) auto

lemma fnmatch_star_drop:
  "fnmatch (CHR ''*'' # ps) cs \<longleftrightarrow> (\<exists>k\<le>length cs. fnmatch ps (drop k cs))"
proof (induction cs)
  case Nil
  then show ?case by simp
next
  case (Cons c cs)
  have "(\<exists>k\<le>length (c # cs). fnmatch ps (drop k (c # cs)))
        \<longleftrightarrow> fnmatch ps (c # cs) \<or> (\<exists>k\<le>length cs. fnmatch ps (drop k cs))"
  proof
    assume "\<exists>k\<le>length (c # cs). fnmatch ps (drop k (c # cs))"
    then obtain k where k: "k \<le> length (c # cs)" "fnmatch ps (drop k (c # cs))" by blast
    show "fnmatch ps (c # cs) \<or> (\<exists>k\<le>length cs. fnmatch ps (drop k cs))"
    proof (cases k)
      case 0
      with k show ?thesis by simp
    next
      case (Suc j)
      with k have "j \<le> length cs" "fnmatch ps (drop j cs)" by simp_all
      then show ?thesis by blast
    qed
  next
    assume "fnmatch ps (c # cs) \<or> (\<exists>k\<le>length cs. fnmatch ps (drop k cs))"
    then show "\<exists>k\<le>length (c # cs). fnmatch ps (drop k (c # cs))"
    proof
      assume "fnmatch ps (c # cs)"
      then have "0 \<le> length (c # cs) \<and> fnmatch ps (drop 0 (c # cs))" by simp
      then show ?thesis by blast
    next
      assume "\<exists>k\<le>length cs. fnmatch ps (drop k cs)"
      then obtain k where "k \<le> length cs" "fnmatch ps (drop k cs)" by blast
      then have "Suc k \<le> length (c # cs) \<and> fnmatch ps (drop (Suc k) (c # cs))" by simp
      then show ?thesis by blast
    qed
  qed
  with Cons show ?case by simp
qed

lemma fnmatch_pattern_suffix: "fnmatch pattern name \<longleftrightarrow> suffix ''CrudManager.java'' name"
proof -
  have "fnmatch pattern name \<longleftrightarrow> (\<exists>k\<le>length name. drop k name = ''CrudManager.java'')"
    unfolding pattern_def by (subst fnmatch_star_drop, subst fnmatch_literal) simp_all
  also have "\<dots> \<longleftrightarrow> suffix ''CrudManager.java'' name"
  proof
    assume "\<exists>k\<le>length name. drop k name = ''CrudManager.java''"
    then obtain k where "drop k name = ''CrudManager.java''" by blast
    then show "suffix ''CrudManager.java'' name" by (metis suffix_drop)
  next
    assume "suffix ''CrudManager.java'' name"
    then obtain zs where zs: "name = zs @ ''CrudManager.java''" by (auto simp: suffix_def)
    then have "length zs \<le> length name \<and> drop (length zs) name = ''CrudManager.java''" by simp
    then show "\<exists>k\<le>length name. drop k name = ''CrudManager.java''" by blast
  qed
  finally show ?thesis .
qed

lemma output_file_not_matched: "\<not> fnmatch pattern output_file"
  by (simp add: pattern_def output_file_def)

lemma glob_update_unmatched:
  "\<not> fnmatch pat name \<Longrightarrow> glob pat (AList.update name v d) = glob pat d"
  by (induction d) (auto simp: glob_def)

subsection \<open>The decoder never fails under ignore, and yields no surrogate\<close>

lemma byte_lt_iff: "(a::byte) < b \<longleftrightarrow> unat a < unat b"
  by (rule word_less_nat_alt)

lemma byte_eq_iff: "(a::byte) = b \<longleftrightarrow> unat a = unat b"
  by (rule word_unat_eq_iff)

lemma byte_le_iff: "(a::byte) \<le> b \<longleftrightarrow> unat a \<le> unat b"
  by (rule word_le_nat_alt)

lemma utf8_step_cases [consumes 1, case_names one two three four]:
  assumes "utf8_step ch rest = Decoded c k"
  obtains
    (one) "ch < 0x80" "c = unat ch" "k = 1"
  | (two) ch2 r where "rest = ch2 # r" "\<not> ch < 0x80" "\<not> ch < 0xC2" "ch < 0xE0"
      "is_continuation_byte ch2" "c = unat ch * 64 + unat ch2 - (0xC0 * 64 + 0x80)" "k = 2"
  | (three) ch2 ch3 r where "rest = ch2 # ch3 # r" "\<not> ch < 0xE0" "ch < 0xF0"
      "is_continuation_byte ch2" "is_continuation_byte ch3"
      "\<not> (if ch2 < 0xA0 then ch = 0xE0 else ch = 0xED)"
      "c = unat ch * 4096 + unat ch2 * 64 + unat ch3 - (0xE0 * 4096 + 0x80 * 64 + 0x80)" "k = 3"
  | (four) ch2 ch3 ch4 r where "rest = ch2 # ch3 # ch4 # r" "\<not> ch < 0xF0" "ch < 0xF5"
      "is_continuation_byte ch2" "is_continuation_byte ch3" "is_continuation_byte ch4"
      "\<not> (if ch2 < 0x90 then ch = 0xF0 else ch = 0xF4)"
      "c = unat ch * 262144 + unat ch2 * 4096 + unat ch3 * 64 + unat ch4
           - (0xF0 * 262144 + 0x80 * 4096 + 0x80 * 64 + 0x80)" "k = 4"
proof (cases "ch < 0x80")
  case True
  with assms that(1) show ?thesis by (simp add: utf8_step_def)
next
  case n1: False
  show ?thesis
  proof (cases "ch < 0xE0")
    case True
    with assms n1 that(2) show ?thesis
      by (simp add: utf8_step_def split: if_splits list.splits)
  next
    case n2: False
    show ?thesis
    proof (cases "ch < 0xF0")
      case True
      with assms n1 n2 that(3) show ?thesis
        by (simp add: utf8_step_def split: if_splits list.splits)
    next
      case n3: False
      with assms n1 n2 that(4) show ?thesis
        by (simp add: utf8_step_def split: if_splits list.splits)
    qed
  qed
qed

lemma cp3_bounds:
  fixes a b c :: nat
  assumes "224 \<le> a" "a < 240" "128 \<le> b" "b < 192" "128 \<le> c" "c < 192" "b < 160 \<or> a \<noteq> 237"
  shows "\<not> is_surrogate (a * 4096 + b * 64 + c - 925824)"
proof -
  define n where "n = a * 4096 + b * 64 + c - 925824"
  have n: "n + 925824 = a * 4096 + b * 64 + c"
    using assms(1,3,5) unfolding n_def by simp
  consider "a \<le> 236" | "a = 237" | "238 \<le> a" by linarith
  then have "n < 55296 \<or> 57343 < n"
  proof cases
    case 1
    then show ?thesis using n assms(4,6) by simp
  next
    case 2
    then have "b < 160" using assms(7) by simp
    then show ?thesis using n 2 assms(6) by simp
  next
    case 3
    then show ?thesis using n assms(3,5) by simp
  qed
  then have "\<not> is_surrogate n"
    unfolding is_surrogate_def by linarith
  then show ?thesis
    unfolding n_def .
qed

lemma cp4_bounds:
  fixes a b c d :: nat
  assumes "240 \<le> a" "128 \<le> b" "128 \<le> c" "128 \<le> d" "144 \<le> b \<or> a \<noteq> 240"
  shows "\<not> is_surrogate (a * 262144 + b * 4096 + c * 64 + d - 63447168)"
proof -
  define n where "n = a * 262144 + b * 4096 + c * 64 + d - 63447168"
  have n: "n + 63447168 = a * 262144 + b * 4096 + c * 64 + d"
    using assms(1,2,3,4) unfolding n_def by simp
  consider "a = 240" | "241 \<le> a" using assms(1) by linarith
  then have "65536 \<le> n"
  proof cases
    case 1
    then have "144 \<le> b" using assms(5) by simp
    then show ?thesis using n 1 assms(3,4) by simp
  next
    case 2
    then show ?thesis using n assms(2,3,4) by simp
  qed
  then have "\<not> is_surrogate n"
    unfolding is_surrogate_def by linarith
  then show ?thesis
    unfolding n_def .
qed

lemma utf8_step_not_surrogate:
  assumes "utf8_step ch rest = Decoded c k"
  shows "\<not> is_surrogate c"
  using assms
proof (cases rule: utf8_step_cases)
  case one
  then show ?thesis unfolding byte_lt_iff is_surrogate_def by simp
next
  case (two ch2 r)
  then have "unat ch < 224" "unat ch2 < 192"
    unfolding is_continuation_byte_def byte_lt_iff byte_le_iff by simp_all
  then have "c < 2048" using two(6) by simp
  then show ?thesis unfolding is_surrogate_def by simp
next
  case (three ch2 ch3 r)
  have a: "224 \<le> unat ch" "unat ch < 240" "128 \<le> unat ch2" "unat ch2 < 192"
    "128 \<le> unat ch3" "unat ch3 < 192"
    using three unfolding is_continuation_byte_def byte_lt_iff byte_le_iff by simp_all
  have b: "unat ch2 < 160 \<or> unat ch \<noteq> 237"
    using three(6) unfolding byte_lt_iff byte_eq_iff by (auto split: if_splits)
  show ?thesis using cp3_bounds [OF a b] three(7) by simp
next
  case (four ch2 ch3 ch4 r)
  have a: "240 \<le> unat ch" "128 \<le> unat ch2" "128 \<le> unat ch3" "128 \<le> unat ch4"
    using four unfolding is_continuation_byte_def byte_lt_iff byte_le_iff by simp_all
  have b: "144 \<le> unat ch2 \<or> unat ch \<noteq> 240"
    using four(7) unfolding byte_lt_iff byte_eq_iff by (auto split: if_splits)
  show ?thesis using cp4_bounds [OF a b] four(8) by simp
qed

lemma utf8_decode_ignore_ok:
  "\<exists>s. utf8_decode Ignore bs = Inr s \<and> \<not> list_ex is_surrogate s"
proof (induction bs rule: length_induct)
  case (1 bs)
  show ?case
  proof (cases bs)
    case Nil
    then show ?thesis by simp
  next
    case (Cons ch rest)
    have "length (drop (k - 1) rest) < length bs" for k using Cons by simp
    with 1 have ih: "\<exists>s. utf8_decode Ignore (drop (k - 1) rest) = Inr s
      \<and> \<not> list_ex is_surrogate s" for k by blast
    show ?thesis
    proof (cases "utf8_step ch rest")
      case (Decoded c k)
      from ih [of k] obtain s where "utf8_decode Ignore (drop (k - 1) rest) = Inr s"
        "\<not> list_ex is_surrogate s" by blast
      with Decoded Cons utf8_step_not_surrogate [OF Decoded] show ?thesis by simp
    next
      case (Invalid k)
      from ih [of k] obtain s where "utf8_decode Ignore (drop (k - 1) rest) = Inr s"
        "\<not> list_ex is_surrogate s" by blast
      with Invalid Cons show ?thesis by simp
    qed
  qed
qed

lemma set_universal_newlines: "set (universal_newlines s) \<subseteq> insert 10 (set s)"
proof (induction s rule: universal_newlines.induct)
  case 1
  show ?case by simp
next
  case (2 c)
  show ?case by simp
next
  case (3 c c' s)
  show ?case
  proof (cases "c = 13")
    case True
    with 3 show ?thesis by (cases "c' = 10") (simp, blast, simp, blast)
  next
    case False
    with 3 show ?thesis by simp blast
  qed
qed

lemma universal_newlines_no_surrogate:
  assumes "\<not> list_ex is_surrogate s"
  shows "\<not> list_ex is_surrogate (universal_newlines s)"
proof -
  have "\<not> is_surrogate 10" by (simp add: is_surrogate_def)
  with assms set_universal_newlines [of s] show ?thesis by (auto simp: list_ex_iff)
qed

lemma decoded_content_newlines:
  "\<exists>s. utf8_decode Ignore bs = Inr s \<and> decoded_content bs = universal_newlines s"
  using utf8_decode_ignore_ok [of bs] by (auto simp: read_text_def decoded_content_def)

lemma read_text_ignore: "read_text Ignore bs = Inr (decoded_content bs)"
  using utf8_decode_ignore_ok [of bs] by (auto simp: read_text_def decoded_content_def)

lemma decoded_content_no_surrogate: "\<not> list_ex is_surrogate (decoded_content bs)"
proof -
  from utf8_decode_ignore_ok [of bs] obtain s
    where s: "utf8_decode Ignore bs = Inr s" "\<not> list_ex is_surrogate s" by blast
  then have "decoded_content bs = universal_newlines s"
    by (simp add: read_text_def decoded_content_def)
  with universal_newlines_no_surrogate [OF s(2)] show ?thesis by simp
qed

lemma utf8_encode_decoded_content:
  "utf8_encode (decoded_content bs) = Inr (encode_str (decoded_content bs))"
  by (simp add: utf8_encode_def decoded_content_no_surrogate)

subsection \<open>The separator as bytes\<close>

lemma encode_str_dashes: "encode_str (replicate n 45) = replicate n 0x2D"
  by (induction n) (simp_all add: encode_str_def encode_code_point_def)

lemma encode_str_append: "encode_str (s @ t) = encode_str s @ encode_str t"
  by (simp add: encode_str_def)

lemma encode_newline_separator:
  "encode_str (10 # separator) = [0x0A] @ replicate 100 0x2D @ [0x0A]"
proof -
  have "encode_str [10] = [0x0A]"
    by (simp add: encode_str_def encode_code_point_def)
  moreover have "encode_str (10 # separator)
      = encode_str [10] @ encode_str (replicate 100 45) @ encode_str [10]"
    unfolding separator_def encode_str_append [symmetric] by simp
  ultimately show ?thesis by (simp only: encode_str_dashes)
qed

lemma utf8_encode_newline_separator:
  "utf8_encode (10 # separator) = Inr ([0x0A] @ replicate 100 0x2D @ [0x0A])"
proof -
  have "\<not> list_ex is_surrogate (10 # separator)"
    by (auto simp: list_ex_iff separator_def is_surrogate_def)
  then show ?thesis by (simp only: utf8_encode_def encode_newline_separator if_False)
qed

subsection \<open>The loop and the run\<close>

lemma file_bytes_update_same: "file_bytes (AList.update n (File bs) d) n = bs"
  by (simp add: file_bytes_def update_conv')

lemma map_of_update_other: "n \<noteq> m \<Longrightarrow> map_of (AList.update m v d) n = map_of d n"
  by (simp add: update_conv')

lemma file_bytes_update_other: "n \<noteq> m \<Longrightarrow> file_bytes (AList.update m v d) n = file_bytes d n"
  by (simp add: file_bytes_def update_conv')

lemma read_file_ignore:
  "map_of d n = Some (File bs) \<Longrightarrow> read_file Ignore n d = Inr (decoded_content bs)"
  by (simp add: read_file_def read_text_ignore)

lemma write_text_decoded:
  "write_text (decoded_content bs) d =
     Inr (AList.update output_file
            (File (file_bytes d output_file @ encode_str (decoded_content bs))) d)"
  by (simp add: write_text_def utf8_encode_decoded_content)

lemma write_text_separator:
  "write_text (10 # separator) d =
     Inr (AList.update output_file
            (File (file_bytes d output_file @ [0x0A] @ replicate 100 0x2D @ [0x0A])) d)"
  unfolding write_text_def utf8_encode_newline_separator by simp

lemma loop_step:
  assumes "map_of d n = Some (File bs)"
  shows "concat_loop (n # ns) d =
     concat_loop ns (AList.update output_file
        (File (file_bytes d output_file @ encode_str (decoded_content bs)
               @ [0x0A] @ replicate 100 0x2D @ [0x0A])) d)"
proof -
  let ?d1 = "AList.update output_file
            (File (file_bytes d output_file @ encode_str (decoded_content bs))) d"
  have "write_text (10 # separator) ?d1 =
     Inr (AList.update output_file
        (File (file_bytes d output_file @ encode_str (decoded_content bs)
               @ [0x0A] @ replicate 100 0x2D @ [0x0A])) d)"
    unfolding write_text_separator file_bytes_update_same by simp
  then show ?thesis
    by (simp only: concat_loop.simps read_file_ignore [OF assms] write_text_decoded
        sum.case)
qed

lemma concat_loop_ok:
  assumes "\<forall>n\<in>set ns. \<exists>bs. map_of d n = Some (File bs)"
    and "output_file \<notin> set ns"
    and "map_of d output_file = Some (File old)"
  shows "concat_loop ns d =
     Inr (AList.update output_file
        (File (old @ concat (map (\<lambda>n. encode_str (decoded_content (file_bytes d n))
                                   @ [0x0A] @ replicate 100 0x2D @ [0x0A]) ns))) d)"
  using assms
proof (induction ns arbitrary: d old)
  case Nil
  then show ?case by (simp add: update_triv)
next
  case (Cons n ns)
  from Cons.prems obtain bs where bs: "map_of d n = Some (File bs)" by auto
  have fb: "file_bytes d n = bs" "file_bytes d output_file = old"
    using bs Cons.prems(3) by (simp_all add: file_bytes_def)
  let ?b = "encode_str (decoded_content bs) @ [0x0A] @ replicate 100 0x2D @ [0x0A]"
  let ?d2 = "AList.update output_file (File (old @ ?b)) d"
  have step: "concat_loop (n # ns) d = concat_loop ns ?d2"
    using loop_step [OF bs] fb by simp
  have ne: "m \<noteq> output_file" if "m \<in> set ns" for m using that Cons.prems(2) by auto
  have p1: "\<forall>m\<in>set ns. \<exists>bs. map_of ?d2 m = Some (File bs)"
    using Cons.prems(1) ne by (simp add: map_of_update_other)
  have p2: "output_file \<notin> set ns" using Cons.prems(2) by simp
  have p3: "map_of ?d2 output_file = Some (File (old @ ?b))" by (simp add: update_conv')
  have same: "map (\<lambda>m. encode_str (decoded_content (file_bytes ?d2 m))
                                   @ [0x0A] @ replicate 100 0x2D @ [0x0A]) ns
     = map (\<lambda>m. encode_str (decoded_content (file_bytes d m))
                                   @ [0x0A] @ replicate 100 0x2D @ [0x0A]) ns"
    by (rule map_cong [OF refl]) (simp add: file_bytes_update_other ne)
  show ?case
    unfolding step Cons.IH [OF p1 p2 p3] same using fb by simp
qed

lemma sorted_inputs_update_output:
  "sorted_inputs (AList.update output_file v d) = sorted_inputs d"
  by (simp add: sorted_inputs_def glob_update_unmatched output_file_not_matched)

lemma set_sorted_inputs: "set (sorted_inputs d) = {e \<in> set d. fnmatch pattern (fst e)}"
  by (auto simp: sorted_inputs_def glob_def)

lemma open_write_ok:
  "map_of d output_file \<noteq> Some Dir \<Longrightarrow>
     open_write output_file d = Inr (AList.update output_file (File []) d)"
  by (auto simp: open_write_def split: option.splits node.splits)

lemma run_ok:
  assumes "dir_ok d"
  shows "run d = Inr (AList.update output_file (File (blocks (sorted_inputs d))) d)"
proof -
  let ?d0 = "AList.update output_file (File []) d"
  let ?es = "sorted_inputs d"
  from assms have dist: "distinct (map fst d)" and nd: "map_of d output_file \<noteq> Some Dir"
    and files: "\<forall>e\<in>set (glob pattern d). snd e \<noteq> Dir"
    by (simp_all add: dir_ok_def list_all_iff)
  have entry: "map_of ?d0 (fst e) = Some (snd e) \<and> fst e \<noteq> output_file \<and> (\<exists>bs. snd e = File bs)"
    if "e \<in> set ?es" for e
  proof -
    from that have e: "e \<in> set d" "fnmatch pattern (fst e)" by (simp_all add: set_sorted_inputs)
    then have "e \<in> set (glob pattern d)" by (simp add: glob_def)
    with files have "snd e \<noteq> Dir" by blast
    then have f: "\<exists>bs. snd e = File bs" by (cases "snd e") simp_all
    from e(2) output_file_not_matched have ne: "fst e \<noteq> output_file" by auto
    from dist e(1) have "map_of d (fst e) = Some (snd e)" by (cases e) simp
    with ne f show ?thesis by (simp add: map_of_update_other)
  qed
  have p1: "\<forall>n\<in>set (map fst ?es). \<exists>bs. map_of ?d0 n = Some (File bs)"
    using entry by fastforce
  have p2: "output_file \<notin> set (map fst ?es)" using entry by fastforce
  have p3: "map_of ?d0 output_file = Some (File [])" by (simp add: update_conv')
  have same: "map (\<lambda>n. encode_str (decoded_content (file_bytes ?d0 n))
                 @ [0x0A] @ replicate 100 0x2D @ [0x0A]) (map fst ?es) = map block ?es"
    unfolding map_map
  proof (rule map_cong [OF refl])
    fix e assume "e \<in> set ?es"
    from entry [OF this] obtain bs where "map_of ?d0 (fst e) = Some (File bs)" "snd e = File bs"
      by auto
    then show "((\<lambda>n. encode_str (decoded_content (file_bytes ?d0 n))
                 @ [0x0A] @ replicate 100 0x2D @ [0x0A]) \<circ> fst) e = block e"
      by (simp add: block_def entry_content_def file_bytes_def)
  qed
  have "run d = concat_loop (map fst ?es) ?d0"
    by (simp add: run_def open_write_ok [OF nd] sorted_inputs_update_output)
  also have "\<dots> = Inr (AList.update output_file (File (blocks ?es)) d)"
    unfolding concat_loop_ok [OF p1 p2 p3] same blocks_def by simp
  finally show ?thesis .
qed


lemma dir_ok_update_output:
  assumes "dir_ok d"
  shows "dir_ok (AList.update output_file (File bs) d)"
  using assms
  by (simp add: dir_ok_def distinct_update update_conv' glob_update_unmatched
      output_file_not_matched)

lemma dir_ok_example_dir: "dir_ok example_dir"
  by code_simp

text \<open>
  The hypothesis \<open>dir_ok\<close> is exact: on a directory with unique names the run returns
  a directory if and only if \<open>dir_ok\<close> holds, and fails with an error otherwise.
\<close>

lemma concat_loop_fails:
  assumes "n \<in> set ns" and "map_of d n = Some Dir" and "output_file \<notin> set ns"
  shows "\<exists>e. concat_loop ns d = Inl e"
  using assms
proof (induction ns arbitrary: d)
  case Nil
  then show ?case by simp
next
  case (Cons m ms)
  show ?case
  proof (cases "map_of d m")
    case None
    then show ?thesis by (simp add: read_file_def)
  next
    case (Some nd)
    show ?thesis
    proof (cases nd)
      case Dir
      with Some show ?thesis by (simp add: read_file_def)
    next
      case (File bs)
      let ?d2 = "AList.update output_file
        (File (file_bytes d output_file @ encode_str (decoded_content bs)
               @ [0x0A] @ replicate 100 0x2D @ [0x0A])) d"
      from File Some have m: "map_of d m = Some (File bs)" by simp
      with Cons.prems have "n \<noteq> m" by auto
      with Cons.prems have n: "n \<in> set ms" "n \<noteq> output_file" by auto
      then have "map_of ?d2 n = Some Dir"
        using Cons.prems(2) by (simp add: map_of_update_other)
      with Cons.IH [of ?d2] n Cons.prems(3) have "\<exists>e. concat_loop ms ?d2 = Inl e" by simp
      then show ?thesis unfolding loop_step [OF m] .
    qed
  qed
qed

lemma run_succeeds_iff:
  assumes "distinct (map fst d)"
  shows "(\<exists>d'. run d = Inr d') \<longleftrightarrow> dir_ok d"
proof
  assume "dir_ok d"
  then show "\<exists>d'. run d = Inr d'" by (simp add: run_ok)
next
  assume ok: "\<exists>d'. run d = Inr d'"
  show "dir_ok d"
  proof (rule ccontr)
    assume "\<not> dir_ok d"
    with assms consider "map_of d output_file = Some Dir"
      | e where "map_of d output_file \<noteq> Some Dir" "e \<in> set (glob pattern d)" "snd e = Dir"
      by (auto simp: dir_ok_def list_all_iff)
    then have "\<exists>e. run d = Inl e"
    proof cases
      case 1
      then show ?thesis by (simp add: run_def open_write_def)
    next
      case 2
      let ?d0 = "AList.update output_file (File []) d"
      from 2(2) have e: "e \<in> set d" "fnmatch pattern (fst e)" by (simp_all add: glob_def)
      with output_file_not_matched have ne: "fst e \<noteq> output_file" by auto
      from assms e(1) have "map_of d (fst e) = Some (snd e)" by (cases e) simp
      with 2(3) ne have dirn: "map_of ?d0 (fst e) = Some Dir" by (simp add: map_of_update_other)
      from e have mem: "fst e \<in> set (map fst (sorted_inputs d))"
        by (simp add: set_sorted_inputs)
      have notin: "output_file \<notin> set (map fst (sorted_inputs d))"
        using output_file_not_matched by (auto simp: set_sorted_inputs)
      from concat_loop_fails [OF mem dirn notin] show ?thesis
        by (simp add: run_def open_write_ok [OF 2(1)] sorted_inputs_update_output)
    qed
    with ok show False by auto
  qed
qed

subsection \<open>Blocks and order\<close>

lemma blocks_append: "blocks (xs @ ys) = blocks xs @ blocks ys"
  by (simp add: blocks_def)

lemma blocks_Cons: "blocks (e # es) = block e @ blocks es"
  by (simp add: blocks_def)

lemma drop_past_element: "drop (Suc (length p)) (p @ [x] @ r) = r"
  by simp

lemma take_dashes: "take 100 (replicate 100 x @ r) = replicate 100 x"
  by simp

lemma sorted_inputs_sorted: "sorted (map sort_key_name (sorted_inputs d))"
  by (simp add: sorted_inputs_def)

subsection \<open>The bytes that survive decoding\<close>

lemma utf8_step_prefix:
  assumes "utf8_step ch rest = Decoded c k"
  shows "utf8_step ch (take (k - 1) rest @ xs) = Decoded c k \<and> length (take (k - 1) rest) = k - 1"
  using assms
proof (cases rule: utf8_step_cases)
  case one
  then show ?thesis by (simp add: utf8_step_def)
next
  case (two ch2 r)
  then show ?thesis by (simp add: utf8_step_def)
next
  case (three ch2 ch3 r)
  then have "\<not> ch < 0x80" by (simp add: byte_lt_iff)
  with three show ?thesis by (simp add: utf8_step_def)
next
  case (four ch2 ch3 ch4 r)
  then have "\<not> ch < 0x80" "\<not> ch < 0xE0" by (simp_all add: byte_lt_iff)
  with four show ?thesis by (simp add: utf8_step_def)
qed

lemma subseq_valid_bytes: "subseq (valid_bytes bs) bs"
proof (induction bs rule: length_induct)
  case (1 bs)
  show ?case
  proof (cases bs)
    case Nil
    then show ?thesis by simp
  next
    case (Cons ch rest)
    have "length (drop (k - 1) rest) < length bs" for k using Cons by simp
    with 1 have ih: "subseq (valid_bytes (drop (k - 1) rest)) (drop (k - 1) rest)" for k
      by blast
    show ?thesis
    proof (cases "utf8_step ch rest")
      case (Decoded c k)
      have "subseq (take (k - 1) rest @ valid_bytes (drop (k - 1) rest))
              (take (k - 1) rest @ drop (k - 1) rest)"
        using ih [of k] by (simp only: subseq_append')
      then show ?thesis using Decoded Cons by simp
    next
      case (Invalid k)
      have "subseq (valid_bytes (drop (k - 1) rest)) (take (k - 1) rest @ drop (k - 1) rest)"
        using ih [of k] by (rule subseq_drop_many)
      then show ?thesis using Invalid Cons by auto
    qed
  qed
qed

lemma strict_valid_bytes: "utf8_decode Strict (valid_bytes bs) = utf8_decode Ignore bs"
proof (induction bs rule: length_induct)
  case (1 bs)
  show ?case
  proof (cases bs)
    case Nil
    then show ?thesis by simp
  next
    case (Cons ch rest)
    have "length (drop (k - 1) rest) < length bs" for k using Cons by simp
    with 1 have ih: "utf8_decode Strict (valid_bytes (drop (k - 1) rest))
        = utf8_decode Ignore (drop (k - 1) rest)" for k
      by blast
    show ?thesis
    proof (cases "utf8_step ch rest")
      case (Decoded c k)
      let ?v = "valid_bytes (drop (k - 1) rest)"
      from utf8_step_prefix [OF Decoded, of ?v]
      have st: "utf8_step ch (take (k - 1) rest @ ?v) = Decoded c k"
        and len: "length (take (k - 1) rest) = k - 1" by simp_all
      have dr: "drop (k - 1) (take (k - 1) rest @ ?v) = ?v"
        using len by (metis append_eq_conv_conj)
      have "utf8_decode Strict (ch # take (k - 1) rest @ ?v)
          = (case utf8_decode Strict ?v of Inl e \<Rightarrow> Inl e | Inr s \<Rightarrow> Inr (c # s))"
        by (simp only: utf8_decode.simps st step.case dr)
      then show ?thesis using Decoded Cons ih [of k] by simp
    next
      case (Invalid k)
      then show ?thesis using Cons ih [of k] by simp
    qed
  qed
qed

lemma strict_ok_nothing_dropped:
  "utf8_decode Strict bs = Inr s \<Longrightarrow> valid_bytes bs = bs"
proof (induction bs arbitrary: s rule: length_induct)
  case (1 bs)
  show ?case
  proof (cases bs)
    case Nil
    then show ?thesis by simp
  next
    case (Cons ch rest)
    show ?thesis
    proof (cases "utf8_step ch rest")
      case (Decoded c k)
      with "1.prems" Cons obtain t where t: "utf8_decode Strict (drop (k - 1) rest) = Inr t"
        by (auto split: sum.splits)
      have "length (drop (k - 1) rest) < length bs" using Cons by simp
      with 1 t have "valid_bytes (drop (k - 1) rest) = drop (k - 1) rest" by blast
      then show ?thesis using Decoded Cons by simp
    next
      case (Invalid k)
      with "1.prems" Cons show ?thesis by simp
    qed
  qed
qed

lemma utf8_decode_strict_error:
  "utf8_decode Strict bs = Inl e \<Longrightarrow> e = UnicodeDecodeError"
proof (induction bs rule: length_induct)
  case (1 bs)
  show ?case
  proof (cases bs)
    case Nil
    with "1.prems" show ?thesis by simp
  next
    case (Cons ch rest)
    show ?thesis
    proof (cases "utf8_step ch rest")
      case (Decoded c k)
      with "1.prems" Cons have t: "utf8_decode Strict (drop (k - 1) rest) = Inl e"
        by (auto split: sum.splits)
      have "length (drop (k - 1) rest) < length bs" using Cons by simp
      with 1 t show ?thesis by blast
    next
      case (Invalid k)
      with "1.prems" Cons show ?thesis by simp
    qed
  qed
qed

lemma read_text_strict_valid_bytes:
  "read_text Strict (valid_bytes bs) = Inr (decoded_content bs)"
  using read_text_ignore [of bs] by (simp add: read_text_def strict_valid_bytes)

lemma dropped_only_if_strict_fails:
  "valid_bytes bs = bs \<or> read_text Strict bs = Inl UnicodeDecodeError"
proof (cases "utf8_decode Strict bs")
  case (Inl e)
  with utf8_decode_strict_error [OF Inl] show ?thesis by (simp add: read_text_def)
next
  case (Inr s)
  then show ?thesis by (simp add: strict_ok_nothing_dropped)
qed

lemma update_absent: "k \<notin> fst ` set d \<Longrightarrow> AList.update k v d = d @ [(k, v)]"
  by (induction d) auto

lemma two_sorted_distinct:
  assumes "set xs = {x, y}" and "distinct xs" and "x \<noteq> y"
    and "sorted (map f xs)" and "f x < f y"
  shows "xs = [x, y]"
proof -
  have "length xs = 2" using assms(1,2,3) distinct_card [of xs] by simp
  then obtain u v where uv: "xs = [u, v]"
    by (cases xs; cases "tl xs") (auto simp: length_Suc_conv)
  with assms(1,2) have "(u = x \<and> v = y) \<or> (u = y \<and> v = x)"
    by (auto simp: doubleton_eq_iff)
  moreover have "\<not> (u = y \<and> v = x)" using assms(4,5) uv by auto
  ultimately show ?thesis using uv by simp
qed

section \<open>The claims of the specification\<close>

text \<open>
  C1, as the specification states it, fails on a file with a carriage return: the file
  with the bytes of a, CR, LF, b decodes to these four characters, and the output holds
  a, LF, b before the separator, since text mode reads CR LF as one line feed.
\<close>

theorem carriage_return_not_kept:
  "utf8_decode Ignore [0x61, 0x0D, 0x0A, 0x62] = Inr [97, 13, 10, 98]
   \<and> run crlf_dir = Inr (crlf_dir @ [(output_file,
        File ([0x61, 0x0A, 0x62] @ [0x0A] @ replicate 100 0x2D @ [0x0A]))])
   \<and> [0x61, 0x0A, 0x62] @ [0x0A] @ replicate 100 0x2D @ [0x0A]
       \<noteq> encode_str [97, 13, 10, 98] @ [0x0A] @ replicate 100 0x2D @ [0x0A]"
proof -
  have dec: "utf8_decode Ignore [0x61, 0x0D, 0x0A, 0x62] = Inr [97, 13, 10, 98]"
    by (simp add: utf8_step_def)
  have ok: "dir_ok crlf_dir" by code_simp
  have s: "sorted_inputs crlf_dir = crlf_dir" by code_simp
  have absent: "output_file \<notin> fst ` set crlf_dir" by code_simp
  have c: "decoded_content [0x61, 0x0D, 0x0A, 0x62] = [97, 10, 98]"
    unfolding decoded_content_def read_text_def dec by simp
  have e1: "encode_str [97, 10, 98] = [0x61, 0x0A, 0x62]"
    by (simp add: encode_str_def encode_code_point_def)
  have e2: "encode_str [97, 13, 10, 98] = [0x61, 0x0D, 0x0A, 0x62]"
    by (simp add: encode_str_def encode_code_point_def)
  have b: "blocks crlf_dir = [0x61, 0x0A, 0x62] @ [0x0A] @ replicate 100 0x2D @ [0x0A]"
    unfolding crlf_dir_def blocks_def
    by (simp only: list.map concat.simps block_def entry_content_def snd_conv node.case c e1
        append_Nil2)
  have r: "run crlf_dir = Inr (crlf_dir @ [(output_file,
        File ([0x61, 0x0A, 0x62] @ [0x0A] @ replicate 100 0x2D @ [0x0A]))])"
    unfolding run_ok [OF ok] s b update_absent [OF absent] ..
  have n: "[0x61, 0x0A, 0x62] @ [0x0A] @ replicate 100 0x2D @ [0x0A]
       \<noteq> encode_str [97, 13, 10, 98] @ [0x0A] @ replicate 100 (0x2D :: byte) @ [0x0A]"
    unfolding e2 by simp
  from dec r n show ?thesis by (intro conjI)
qed

text \<open>
  C1, amended. On every directory on which no call of the run fails, the output file
  holds, for each matched file in sorted order, the encoding of the text read from that
  file, then a line feed, then exactly 100 dashes, then a line feed, and nothing else;
  the block of dashes follows every content, the last one too. The text read from a file
  is its decoding under \<open>errors="ignore"\<close> with every CR LF and every other CR
  replaced by one line feed.
\<close>

theorem output_format:
  assumes "dir_ok d"
  shows "\<exists>d'. run d = Inr d'
     \<and> map_of d' output_file = Some (File (concat (map
          (\<lambda>e. encode_str (entry_content e) @ [0x0A] @ replicate 100 0x2D @ [0x0A])
          (sorted_inputs d))))
     \<and> (\<forall>e\<in>set (sorted_inputs d).
          \<exists>bs s. snd e = File bs \<and> utf8_decode Ignore bs = Inr s
            \<and> entry_content e = universal_newlines s
            \<and> read_file Ignore (fst e) d = Inr (entry_content e))"
proof -
  have "block = (\<lambda>e. encode_str (entry_content e) @ [0x0A] @ replicate 100 0x2D @ [0x0A])"
    by (rule ext) (simp add: block_def)
  then have out: "blocks (sorted_inputs d) = concat (map
          (\<lambda>e. encode_str (entry_content e) @ [0x0A] @ replicate 100 0x2D @ [0x0A])
          (sorted_inputs d))"
    by (simp add: blocks_def)
  have rd: "\<exists>bs s. snd e = File bs \<and> utf8_decode Ignore bs = Inr s
            \<and> entry_content e = universal_newlines s
            \<and> read_file Ignore (fst e) d = Inr (entry_content e)"
    if "e \<in> set (sorted_inputs d)" for e
  proof -
    from that have e: "e \<in> set d" "e \<in> set (glob pattern d)"
      by (simp_all add: set_sorted_inputs glob_def)
    with assms have "snd e \<noteq> Dir" by (auto simp: dir_ok_def list_all_iff)
    then obtain bs where bs: "snd e = File bs" by (cases "snd e") simp_all
    from decoded_content_newlines [of bs] obtain s
      where s: "utf8_decode Ignore bs = Inr s" "decoded_content bs = universal_newlines s"
      by blast
    from assms e(1) have "map_of d (fst e) = Some (snd e)"
      by (cases e) (simp add: dir_ok_def)
    with bs s show ?thesis by (simp add: read_file_ignore entry_content_def)
  qed
  show ?thesis
    unfolding run_ok [OF assms] using out rd by (simp add: update_conv')
qed

theorem output_format_witness:
  "dir_ok example_dir \<and> (\<exists>d'. run example_dir = Inr d'
     \<and> map_of d' output_file = Some (File (concat (map
          (\<lambda>e. encode_str (entry_content e) @ [0x0A] @ replicate 100 0x2D @ [0x0A])
          (sorted_inputs example_dir))))
     \<and> (\<forall>e\<in>set (sorted_inputs example_dir).
          \<exists>bs s. snd e = File bs \<and> utf8_decode Ignore bs = Inr s
            \<and> entry_content e = universal_newlines s
            \<and> read_file Ignore (fst e) example_dir = Inr (entry_content e)))"
  using output_format [OF dir_ok_example_dir] dir_ok_example_dir by blast

text \<open>
  C2. Matched files are written in the order of their lower-cased names: when the
  lower-cased name of a matched file \<open>f\<close> is smaller than that of a matched file \<open>g\<close>,
  the sorted list of inputs has \<open>f\<close> before \<open>g\<close> and the output holds the block of
  \<open>f\<close> before the block of \<open>g\<close>.
\<close>

theorem sorted_case_insensitive:
  assumes "dir_ok d" and "f \<in> set (glob pattern d)" and "g \<in> set (glob pattern d)"
    and "lower (fst f) < lower (fst g)"
  shows "\<exists>pre mid post d'. sorted_inputs d = pre @ f # mid @ g # post
     \<and> run d = Inr d'
     \<and> file_bytes d' output_file
         = blocks pre @ block f @ blocks mid @ block g @ blocks post"
proof -
  from assms(2) have "f \<in> set (sorted_inputs d)" by (simp add: sorted_inputs_def)
  then obtain xs ys where xy: "sorted_inputs d = xs @ f # ys" by (meson split_list)
  from assms(3) have "g \<in> set (sorted_inputs d)" by (simp add: sorted_inputs_def)
  with xy assms(4) have "g \<in> set xs \<or> g \<in> set ys" by auto
  moreover have "g \<notin> set xs"
  proof
    assume "g \<in> set xs"
    with sorted_inputs_sorted [of d] xy have "sort_key_name g \<le> sort_key_name f"
      by (simp add: sorted_append)
    with assms(4) show False by (simp add: sort_key_name_def)
  qed
  ultimately have "g \<in> set ys" by blast
  then obtain mid post where ys: "ys = mid @ g # post" by (meson split_list)
  have "blocks (sorted_inputs d) = blocks xs @ block f @ blocks mid @ block g @ blocks post"
    unfolding xy ys blocks_append blocks_Cons by simp
  with run_ok [OF assms(1)] xy ys show ?thesis
    by (auto simp: file_bytes_update_same)
qed

theorem sorted_case_insensitive_witness:
  "dir_ok example_dir
   \<and> (''aCrudManager.java'', File [0x61]) \<in> set (glob pattern example_dir)
   \<and> (''BCrudManager.java'', File [0x42, 0xFF, 0xC3, 0xA9, 0x0D, 0x0A])
        \<in> set (glob pattern example_dir)
   \<and> lower (fst (''aCrudManager.java'', File [0x61]))
        < lower (fst (''BCrudManager.java'', File [0x42, 0xFF, 0xC3, 0xA9, 0x0D, 0x0A]))
   \<and> (\<exists>pre mid post d'.
         sorted_inputs example_dir
           = pre @ (''aCrudManager.java'', File [0x61]) # mid
             @ (''BCrudManager.java'', File [0x42, 0xFF, 0xC3, 0xA9, 0x0D, 0x0A]) # post
         \<and> run example_dir = Inr d'
         \<and> file_bytes d' output_file
             = blocks pre @ block (''aCrudManager.java'', File [0x61]) @ blocks mid
               @ block (''BCrudManager.java'', File [0x42, 0xFF, 0xC3, 0xA9, 0x0D, 0x0A])
               @ blocks post)"
proof -
  have f: "(''aCrudManager.java'', File [0x61]) \<in> set (glob pattern example_dir)"
    by code_simp
  have g: "(''BCrudManager.java'', File [0x42, 0xFF, 0xC3, 0xA9, 0x0D, 0x0A])
        \<in> set (glob pattern example_dir)"
    by code_simp
  have l: "lower (fst (''aCrudManager.java'', File [0x61]))
        < lower (fst (''BCrudManager.java'', File [0x42, 0xFF, 0xC3, 0xA9, 0x0D, 0x0A]))"
    by code_simp
  from sorted_case_insensitive [OF dir_ok_example_dir f g l] dir_ok_example_dir f g l
  show ?thesis by blast
qed

text \<open>
  C3, as the specification states it, fails: the names a.CrudManager and B.CrudManager do
  not end with CrudManager.java, so the run matches none of the three files and leaves
  an empty output file.
\<close>

theorem spec_example_not_matched:
  "sorted_inputs spec_example_dir = []
   \<and> run spec_example_dir = Inr (spec_example_dir @ [(output_file, File [])])
   \<and> block (''a.CrudManager'', File [0x41]) @ block (''B.CrudManager'', File [0x42]) \<noteq> []"
proof -
  have g: "glob pattern spec_example_dir = []" by code_simp
  have ok: "dir_ok spec_example_dir" by code_simp
  have s: "sorted_inputs spec_example_dir = []" using g by (simp add: sorted_inputs_def)
  have "output_file \<notin> fst ` set spec_example_dir" by code_simp
  then show ?thesis
    unfolding run_ok [OF ok] s by (simp add: blocks_def block_def update_absent)
qed

text \<open>
  C3, amended. For a directory that holds exactly the files a.CrudManager.java,
  B.CrudManager.java and c.txt, in whatever order they are enumerated, the inputs of the
  run are the first two, in this order, and the output file, created behind the other
  entries, holds the block of a.CrudManager.java and then the block of
  B.CrudManager.java; nothing of c.txt is in it.
\<close>

theorem java_example_two_inputs:
  assumes "set d = {(''a.CrudManager.java'', File a), (''B.CrudManager.java'', File b),
                    (''c.txt'', File c)}"
    and "distinct d"
  shows "sorted_inputs d = [(''a.CrudManager.java'', File a), (''B.CrudManager.java'', File b)]
     \<and> run d = Inr (d @ [(output_file,
          File (block (''a.CrudManager.java'', File a) @ block (''B.CrudManager.java'', File b)))])"
proof -
  let ?ea = "(''a.CrudManager.java'', File a)"
  let ?eb = "(''B.CrudManager.java'', File b)"
  let ?ec = "(''c.txt'', File c)"
  have ma: "fnmatch pattern ''a.CrudManager.java''" by (simp add: pattern_def)
  have mb: "fnmatch pattern ''B.CrudManager.java''" by (simp add: pattern_def)
  have mc: "\<not> fnmatch pattern ''c.txt''" by (simp add: pattern_def)
  have key: "sort_key_name ?ea < sort_key_name ?eb"
    unfolding sort_key_name_def fst_conv by code_simp
  have set_in: "set (sorted_inputs d) = {?ea, ?eb}"
    unfolding set_sorted_inputs assms(1) using ma mb mc by auto
  have dist_in: "distinct (sorted_inputs d)"
    using assms(2) by (simp add: sorted_inputs_def glob_def)
  have ne: "?ea \<noteq> ?eb" by simp
  have srt: "sorted_inputs d = [?ea, ?eb]"
    using set_in dist_in ne sorted_inputs_sorted key by (rule two_sorted_distinct)
  have "inj_on fst (set d)" unfolding assms(1) by (simp add: inj_on_def)
  with assms(2) have dn: "distinct (map fst d)" by (simp add: distinct_map)
  have names: "fst ` set d = {''a.CrudManager.java'', ''B.CrudManager.java'', ''c.txt''}"
    unfolding assms(1) by simp
  have absent: "output_file \<notin> fst ` set d" unfolding names output_file_def by simp
  then have "map_of d output_file = None" by (simp add: map_of_eq_None_iff)
  then have ok: "dir_ok d"
    using dn set_in unfolding dir_ok_def list_all_iff
    by (auto simp: sorted_inputs_def)
  show ?thesis
    unfolding run_ok [OF ok] srt by (simp add: blocks_def update_absent [OF absent])
qed

theorem java_example_two_inputs_witness:
  "set java_example_dir = {(''a.CrudManager.java'', File [0x41]),
      (''B.CrudManager.java'', File [0x42]), (''c.txt'', File [0x43])}
   \<and> distinct java_example_dir
   \<and> sorted_inputs java_example_dir
       = [(''a.CrudManager.java'', File [0x41]), (''B.CrudManager.java'', File [0x42])]
   \<and> run java_example_dir = Inr (java_example_dir @ [(output_file,
          File (block (''a.CrudManager.java'', File [0x41])
                @ block (''B.CrudManager.java'', File [0x42])))])"
proof -
  have s: "set java_example_dir = {(''a.CrudManager.java'', File [0x41]),
      (''B.CrudManager.java'', File [0x42]), (''c.txt'', File [0x43])}"
    unfolding java_example_dir_def by auto
  have d: "distinct java_example_dir" by code_simp
  from java_example_two_inputs [OF s d] s d show ?thesis by blast
qed

text \<open>
  C4. A second run on the directory that the first run leaves behind returns that same
  directory: the output file of the second run is byte for byte the one of the first.
\<close>

theorem rerun_identical:
  assumes "dir_ok d"
  shows "\<exists>d'. run d = Inr d' \<and> dir_ok d' \<and> run d' = Inr d'
           \<and> file_bytes d' output_file = blocks (sorted_inputs d)"
proof -
  let ?d' = "AList.update output_file (File (blocks (sorted_inputs d))) d"
  have ok: "dir_ok ?d'" by (rule dir_ok_update_output [OF assms])
  have "run ?d' = Inr ?d'"
    unfolding run_ok [OF ok] sorted_inputs_update_output by simp
  with ok run_ok [OF assms] show ?thesis by (simp add: file_bytes_update_same)
qed

theorem rerun_identical_witness:
  "dir_ok example_dir
   \<and> (\<exists>d'. run example_dir = Inr d' \<and> dir_ok d' \<and> run d' = Inr d'
           \<and> file_bytes d' output_file = blocks (sorted_inputs example_dir))"
  using rerun_identical [OF dir_ok_example_dir] dir_ok_example_dir by blast

text \<open>
  C5. The output after a run depends on the matched entries only: two directories with
  the same matched entries get the same output file, which is the blocks of the sorted
  matched entries, and replacing the prior content of the output file by any bytes
  \<open>old\<close> does not change the result of the run.
\<close>

theorem prior_output_irrelevant:
  assumes "dir_ok d1" and "dir_ok d2" and "glob pattern d1 = glob pattern d2"
  shows "(\<exists>d1' d2'. run d1 = Inr d1' \<and> run d2 = Inr d2'
            \<and> map_of d1' output_file = map_of d2' output_file
            \<and> map_of d1' output_file
                = Some (File (blocks (sort_key sort_key_name (glob pattern d1)))))
         \<and> run (AList.update output_file (File old) d1) = run d1"
proof -
  have s: "sorted_inputs d2 = sorted_inputs d1"
    using assms(3) by (simp add: sorted_inputs_def)
  have "run (AList.update output_file (File old) d1) = run d1"
    unfolding run_ok [OF dir_ok_update_output [OF assms(1)]] run_ok [OF assms(1)]
      sorted_inputs_update_output by simp
  then show ?thesis
    unfolding run_ok [OF assms(1)] run_ok [OF assms(2)] s
    by (simp add: update_conv' sorted_inputs_def)
qed

theorem prior_output_irrelevant_witness:
  "dir_ok example_dir \<and> dir_ok fresh_dir
   \<and> glob pattern example_dir = glob pattern fresh_dir
   \<and> (\<exists>d1' d2'. run example_dir = Inr d1' \<and> run fresh_dir = Inr d2'
            \<and> map_of d1' output_file = map_of d2' output_file
            \<and> map_of d1' output_file
                = Some (File (blocks (sort_key sort_key_name (glob pattern example_dir)))))
   \<and> run (AList.update output_file (File [0x78, 0x79]) example_dir) = run example_dir"
proof -
  have ok2: "dir_ok fresh_dir" by code_simp
  have g: "glob pattern example_dir = glob pattern fresh_dir" by code_simp
  from prior_output_irrelevant [OF dir_ok_example_dir ok2 g, of "[0x78, 0x79]"]
    dir_ok_example_dir ok2 g
  show ?thesis by blast
qed

text \<open>
  C6. When no entry of the directory matches the pattern and the output name is not
  taken by a directory, the run completes, the output file exists afterwards and it
  holds zero bytes.
\<close>

theorem zero_matches_empty_output:
  assumes "glob pattern d = []" and "map_of d output_file \<noteq> Some Dir"
  shows "\<exists>d'. run d = Inr d' \<and> map_of d' output_file = Some (File [])
           \<and> length (file_bytes d' output_file) = 0"
proof -
  have "sorted_inputs d = []" using assms(1) by (simp add: sorted_inputs_def)
  then have "run d = Inr (AList.update output_file (File []) d)"
    by (simp add: run_def open_write_ok [OF assms(2)] sorted_inputs_update_output)
  then show ?thesis by (simp add: update_conv' file_bytes_def)
qed

theorem zero_matches_empty_output_witness:
  "glob pattern empty_dir = [] \<and> map_of empty_dir output_file \<noteq> Some Dir
   \<and> (\<exists>d'. run empty_dir = Inr d' \<and> map_of d' output_file = Some (File [])
          \<and> length (file_bytes d' output_file) = 0)"
proof -
  have g: "glob pattern empty_dir = []"
    by code_simp
  have m: "map_of empty_dir output_file \<noteq> Some Dir"
    by code_simp
  from zero_matches_empty_output [OF g m] g m show ?thesis by blast
qed

text \<open>
  C7. A matched file with bytes that are not valid UTF-8 does not stop the run. The run
  completes, and the share of the file in the output is the text read under
  \<open>errors="ignore"\<close> followed by the usual separator. That text is what a strict
  decoder reads from the bytes that remain, in their order, once the invalid ranges are
  taken out; bytes are taken out only from a file that a strict decoder would refuse.
\<close>

theorem undecodable_bytes_dropped:
  assumes "dir_ok d" and "(name, File bs) \<in> set (glob pattern d)"
  shows "\<exists>d' pre post. run d = Inr d'
     \<and> sorted_inputs d = pre @ (name, File bs) # post
     \<and> file_bytes d' output_file
         = blocks pre
           @ (encode_str (decoded_content bs) @ [0x0A] @ replicate 100 0x2D @ [0x0A])
           @ blocks post
     \<and> read_file Ignore name d = Inr (decoded_content bs)
     \<and> read_text Strict (valid_bytes bs) = Inr (decoded_content bs)
     \<and> subseq (valid_bytes bs) bs
     \<and> (valid_bytes bs = bs \<or> read_text Strict bs = Inl UnicodeDecodeError)"
proof -
  from assms(2) have "(name, File bs) \<in> set (sorted_inputs d)"
    by (simp add: sorted_inputs_def)
  then obtain pre post where sp: "sorted_inputs d = pre @ (name, File bs) # post"
    by (meson split_list)
  have b: "block (name, File bs)
      = encode_str (decoded_content bs) @ [0x0A] @ replicate 100 0x2D @ [0x0A]"
    by (simp add: block_def entry_content_def)
  have out: "blocks (sorted_inputs d) = blocks pre
           @ (encode_str (decoded_content bs) @ [0x0A] @ replicate 100 0x2D @ [0x0A])
           @ blocks post"
    unfolding sp blocks_append blocks_Cons b by simp
  from assms have "map_of d name = Some (File bs)"
    by (simp add: dir_ok_def glob_def)
  then have rd: "read_file Ignore name d = Inr (decoded_content bs)"
    by (rule read_file_ignore)
  have fb: "file_bytes (AList.update output_file (File (blocks (sorted_inputs d))) d) output_file
      = blocks (sorted_inputs d)" by (rule file_bytes_update_same)
  from run_ok [OF assms(1)] sp fb out rd read_text_strict_valid_bytes [of bs]
    subseq_valid_bytes [of bs] dropped_only_if_strict_fails [of bs]
  show ?thesis by (metis (no_types, lifting))
qed

theorem undecodable_bytes_dropped_witness:
  "dir_ok example_dir
   \<and> (''BCrudManager.java'', File [0x42, 0xFF, 0xC3, 0xA9, 0x0D, 0x0A])
        \<in> set (glob pattern example_dir)
   \<and> valid_bytes [0x42, 0xFF, 0xC3, 0xA9, 0x0D, 0x0A] = [0x42, 0xC3, 0xA9, 0x0D, 0x0A]
   \<and> decoded_content [0x42, 0xFF, 0xC3, 0xA9, 0x0D, 0x0A] = [66, 233, 10]
   \<and> (\<exists>d' pre post. run example_dir = Inr d'
     \<and> sorted_inputs example_dir
         = pre @ (''BCrudManager.java'', File [0x42, 0xFF, 0xC3, 0xA9, 0x0D, 0x0A]) # post
     \<and> file_bytes d' output_file
         = blocks pre
           @ (encode_str (decoded_content [0x42, 0xFF, 0xC3, 0xA9, 0x0D, 0x0A])
              @ [0x0A] @ replicate 100 0x2D @ [0x0A])
           @ blocks post
     \<and> read_file Ignore ''BCrudManager.java'' example_dir
         = Inr (decoded_content [0x42, 0xFF, 0xC3, 0xA9, 0x0D, 0x0A])
     \<and> read_text Strict (valid_bytes [0x42, 0xFF, 0xC3, 0xA9, 0x0D, 0x0A])
         = Inr (decoded_content [0x42, 0xFF, 0xC3, 0xA9, 0x0D, 0x0A])
     \<and> subseq (valid_bytes [0x42, 0xFF, 0xC3, 0xA9, 0x0D, 0x0A])
          [0x42, 0xFF, 0xC3, 0xA9, 0x0D, 0x0A]
     \<and> (valid_bytes [0x42, 0xFF, 0xC3, 0xA9, 0x0D, 0x0A] = [0x42, 0xFF, 0xC3, 0xA9, 0x0D, 0x0A]
          \<or> read_text Strict [0x42, 0xFF, 0xC3, 0xA9, 0x0D, 0x0A] = Inl UnicodeDecodeError))"
proof -
  have m: "(''BCrudManager.java'', File [0x42, 0xFF, 0xC3, 0xA9, 0x0D, 0x0A])
        \<in> set (glob pattern example_dir)"
    by code_simp
  have v: "valid_bytes [0x42, 0xFF, 0xC3, 0xA9, 0x0D, 0x0A] = [0x42, 0xC3, 0xA9, 0x0D, 0x0A]"
    by (simp add: utf8_step_def is_continuation_byte_def)
  have c: "decoded_content [0x42, 0xFF, 0xC3, 0xA9, 0x0D, 0x0A] = [66, 233, 10]"
    by (simp add: decoded_content_def read_text_def utf8_step_def is_continuation_byte_def)
  from undecodable_bytes_dropped [OF dir_ok_example_dir m] dir_ok_example_dir m v c
  show ?thesis by blast
qed

text \<open>
  C8. The pattern is matched with the case of the letters: a name is matched exactly
  when it ends with the string CrudManager.java, the inputs of a run are exactly the
  entries with such a name, and neither aCrudmanager.java nor aCRUDMANAGER.JAVA is
  matched.
\<close>

theorem pattern_case_sensitive:
  "(fnmatch pattern name \<longleftrightarrow> suffix ''CrudManager.java'' name)
   \<and> (e \<in> set (sorted_inputs d) \<longleftrightarrow> e \<in> set d \<and> suffix ''CrudManager.java'' (fst e))
   \<and> \<not> fnmatch pattern ''aCrudmanager.java''
   \<and> \<not> fnmatch pattern ''aCRUDMANAGER.JAVA''"
proof -
  have "\<not> fnmatch pattern ''aCrudmanager.java''" by (simp add: pattern_def)
  moreover have "\<not> fnmatch pattern ''aCRUDMANAGER.JAVA''" by (simp add: pattern_def)
  ultimately show ?thesis by (simp add: set_sorted_inputs fnmatch_pattern_suffix)
qed

text \<open>
  C9. For every matched file, the byte written right behind its content is a line feed
  and the 100 dashes follow that line feed, whatever the content ends with: the dashes
  begin a line of their own.
\<close>

theorem dashes_begin_line:
  assumes "dir_ok d" and "sorted_inputs d = pre @ e # post"
  shows "\<exists>d' out. run d = Inr d' \<and> map_of d' output_file = Some (File out)
     \<and> out = (blocks pre @ encode_str (entry_content e))
              @ [0x0A] @ replicate 100 0x2D @ [0x0A] @ blocks post
     \<and> out ! length (blocks pre @ encode_str (entry_content e)) = 0x0A
     \<and> take 100 (drop (Suc (length (blocks pre @ encode_str (entry_content e)))) out)
         = replicate 100 0x2D"
proof -
  let ?p = "blocks pre @ encode_str (entry_content e)"
  let ?out = "?p @ [0x0A] @ replicate 100 0x2D @ [0x0A] @ blocks post"
  have out: "blocks (sorted_inputs d) = ?out"
    unfolding assms(2) blocks_append blocks_Cons block_def by simp
  have nl: "?out ! length ?p = 0x0A" by (simp only: nth_append_length append_Cons append_Nil)
  have tk: "take 100 (drop (Suc (length ?p)) ?out) = replicate 100 0x2D"
    by (simp only: drop_past_element take_dashes)
  have r: "run d = Inr (AList.update output_file (File ?out) d)"
    using run_ok [OF assms(1)] out by (simp only:)
  have m: "map_of (AList.update output_file (File ?out) d) output_file = Some (File ?out)"
    by (simp only: update_conv' fun_upd_same)
  from r m nl tk show ?thesis by blast
qed

theorem dashes_begin_line_witness:
  "dir_ok example_dir
   \<and> sorted_inputs example_dir
       = [] @ (''aCrudManager.java'', File [0x61])
           # [(''BCrudManager.java'', File [0x42, 0xFF, 0xC3, 0xA9, 0x0D, 0x0A])]
   \<and> (\<exists>d' out. run example_dir = Inr d' \<and> map_of d' output_file = Some (File out)
     \<and> out = (blocks [] @ encode_str (entry_content (''aCrudManager.java'', File [0x61])))
              @ [0x0A] @ replicate 100 0x2D @ [0x0A]
              @ blocks [(''BCrudManager.java'', File [0x42, 0xFF, 0xC3, 0xA9, 0x0D, 0x0A])]
     \<and> out ! length (blocks [] @ encode_str (entry_content (''aCrudManager.java'', File [0x61])))
         = 0x0A
     \<and> take 100 (drop (Suc (length (blocks []
           @ encode_str (entry_content (''aCrudManager.java'', File [0x61]))))) out)
         = replicate 100 0x2D)"
proof -
  have s: "sorted_inputs example_dir
       = [] @ (''aCrudManager.java'', File [0x61])
           # [(''BCrudManager.java'', File [0x42, 0xFF, 0xC3, 0xA9, 0x0D, 0x0A])]"
    by code_simp
  from dashes_begin_line [OF dir_ok_example_dir s] dir_ok_example_dir s
  show ?thesis by blast
qed

text \<open>
  C10. The name of the output file does not match the pattern, so it is not among the
  inputs of any run, whatever the directory holds, and the run is the same as the one
  that takes the output file out of its list of inputs: the output is never read back.
\<close>

theorem output_never_input:
  "\<not> fnmatch pattern output_file
   \<and> output_file \<notin> fst ` set (sorted_inputs d)
   \<and> run d = (case open_write output_file d of
        Inl e \<Rightarrow> Inl e
      | Inr d0 \<Rightarrow>
          concat_loop (filter (\<lambda>n. n \<noteq> output_file) (map fst (sorted_inputs d0))) d0)"
proof -
  have notin: "output_file \<notin> fst ` set (sorted_inputs d0)" for d0
    using output_file_not_matched by (auto simp: set_sorted_inputs)
  have eq: "filter (\<lambda>n. n \<noteq> output_file) (map fst (sorted_inputs d0))
      = map fst (sorted_inputs d0)" for d0
    using notin [of d0] by (force simp: filter_id_conv)
  show ?thesis unfolding eq run_def using notin output_file_not_matched by simp
qed

end
